theory Spec2Isabelle
  imports Complex_Main "HOL-Library.Sublist"
begin

section \<open>Tag budget: \<open>trim_tags\<close>\<close>

text \<open>
  \<^verbatim>\<open>
  def trim_tags(tags: List[str]) -> List[str]:
      total, out = 0, []
      for t in tags:
          l = len(t)
          if total + l + 1 > 500:
              break
          out.append(t)
          total += l + 1
      return out
  \<close>
  A Python \<open>str\<close> is a sequence of code points and \<open>len\<close> counts them, so a tag is
  a list over an arbitrary character type \<open>'c\<close>. The \<open>for\<close> loop with its two
  accumulators is \<open>trim_loop\<close>; \<open>break\<close> returns the accumulator \<open>out\<close>.
\<close>

fun trim_loop :: "nat \<Rightarrow> 'c list list \<Rightarrow> 'c list list \<Rightarrow> 'c list list" where
  "trim_loop tot out [] = out"
| "trim_loop tot out (t # ts) =
     (let l = length t in
      if tot + l + 1 > 500 then out
      else trim_loop (tot + (l + 1)) (out @ [t]) ts)"

definition trim_tags :: "'c list list \<Rightarrow> 'c list list" where
  "trim_tags tgs = trim_loop 0 [] tgs"

text \<open>The cumulative size the platform counts: each tag's length plus one separator.\<close>

definition tag_cost :: "'c list list \<Rightarrow> nat" where
  "tag_cost ts = sum_list (map (\<lambda>t. length t + 1) ts)"


section \<open>Errors\<close>

text \<open>
  The exceptions the program raises or lets through. \<open>SystemExit\<close> (raised by
  \<open>sys.exit\<close>) and \<open>KeyboardInterrupt\<close> derive from \<open>BaseException\<close> only, so the
  handler \<open>except Exception\<close> of \<open>main\<close> does not catch them; all the others derive from
  \<open>Exception\<close>.
\<close>

datatype exn =
    OverflowError
  | ValueError
  | EOFError
  | FileNotFoundError string
  | HttpError string
  | OtherException string
  | SystemExit string
  | KeyboardInterrupt

fun is_Exception :: "exn \<Rightarrow> bool" where
  "is_Exception (SystemExit m) = False"
| "is_Exception KeyboardInterrupt = False"
| "is_Exception e = True"

fun is_HttpError :: "exn \<Rightarrow> bool" where
  "is_HttpError (HttpError m) = True"
| "is_HttpError e = False"

section \<open>Configuration\<close>

definition UPLOAD_HOUR :: int where "UPLOAD_HOUR = 10"
definition MIN_MARGIN_MIN :: int where "MIN_MARGIN_MIN = 20"
definition PROGRESS_STEP :: rat where "PROGRESS_STEP = 5 / 100"
definition CATEGORY_ID :: string where "CATEGORY_ID = ''28''"
definition VIDEO_EXT :: "string set" where
  "VIDEO_EXT = {''.mp4'', ''.mov'', ''.mkv'', ''.avi'', ''.flv'', ''.webm''}"

section \<open>Dates and times\<close>

text \<open>
  An aware \<open>datetime\<close> of Python is a local reading (year to microsecond) with a
  \<open>tzinfo\<close>. The reading is kept as \<open>wall\<close>, the number of microseconds since
  0001-01-01T00:00:00 of the local calendar (so \<open>wall div US_PER_DAY\<close> is
  \<open>toordinal() - 1\<close>), and the \<open>tzinfo\<close> as \<open>off\<close>, its \<open>utcoffset()\<close> in
  microseconds: the zones pytz attaches are fixed-offset instances, and arithmetic and
  \<open>replace\<close> keep the instance. A \<open>timedelta\<close> is a number of microseconds.
\<close>

record datetime =
  wall :: int
  off :: int

definition US_PER_SECOND :: int where "US_PER_SECOND = 1000000"
definition US_PER_MINUTE :: int where "US_PER_MINUTE = 60000000"
definition US_PER_HOUR :: int where "US_PER_HOUR = 3600000000"
definition US_PER_DAY :: int where "US_PER_DAY = 86400000000"

text \<open>\<open>date.max.toordinal()\<close>, the ordinal of 9999-12-31.\<close>

definition MAXORDINAL :: int where "MAXORDINAL = 3652059"

text \<open>\<open>timedelta(minutes=m)\<close> and \<open>timedelta(days=d)\<close>.\<close>

definition minutes :: "int \<Rightarrow> int" where "minutes m = m * US_PER_MINUTE"
definition days :: "int \<Rightarrow> int" where "days d = d * US_PER_DAY"

text \<open>
  \<open>dt + td\<close>: the local reading moves by \<open>td\<close> and the zone is kept; Python raises
  \<open>OverflowError\<close> unless the ordinal of the result lies in \<open>1 .. MAXORDINAL\<close>.
\<close>

definition dt_add :: "datetime \<Rightarrow> int \<Rightarrow> exn + datetime" where
  "dt_add d td =
     (let w = wall d + td in
      if 0 \<le> w \<and> w < MAXORDINAL * US_PER_DAY then Inr (d\<lparr>wall := w\<rparr>)
      else Inl OverflowError)"

text \<open>
  Aware datetimes are compared, and subtracted, as points of the UTC time line: the local
  reading minus the offset.
\<close>

definition instant :: "datetime \<Rightarrow> int" where
  "instant d = wall d - off d"

definition dt_ge :: "datetime \<Rightarrow> datetime \<Rightarrow> bool" where
  "dt_ge a b = (instant b \<le> instant a)"

definition dt_sub :: "datetime \<Rightarrow> datetime \<Rightarrow> int" where
  "dt_sub a b = (wall a - wall b) + (off b - off a)"

text \<open>\<open>dt.replace(hour=h, minute=m, second=s, microsecond=us)\<close>: same day, same zone.\<close>

definition replace_time :: "datetime \<Rightarrow> int \<Rightarrow> int \<Rightarrow> int \<Rightarrow> int \<Rightarrow> datetime" where
  "replace_time d h m s us =
     d\<lparr>wall := (wall d div US_PER_DAY) * US_PER_DAY
                + h * US_PER_HOUR + m * US_PER_MINUTE + s * US_PER_SECOND + us\<rparr>"

text \<open>
  \<open>naive.replace(hour=h)\<close> on a naive reading: only the hour changes, the minutes,
  seconds and microseconds stay.
\<close>

definition replace_hour :: "int \<Rightarrow> int \<Rightarrow> int" where
  "replace_hour w h = (w div US_PER_DAY) * US_PER_DAY + h * US_PER_HOUR + w mod US_PER_HOUR"

text \<open>
  \<open>tz.localize(naive)\<close>: the reading is kept and gets the offset the zone has at that
  reading. The zone database is not part of the program: the zone is a function from
  readings to offsets.
\<close>

definition localize :: "(int \<Rightarrow> int) \<Rightarrow> int \<Rightarrow> datetime" where
  "localize tz w = \<lparr>wall = w, off = tz w\<rparr>"

subsection \<open>The proleptic Gregorian calendar of \<open>datetime\<close>\<close>

text \<open>
  The conversions between a calendar date and its ordinal, as Python's \<open>datetime\<close>
  module computes them (\<open>_ymd2ord\<close>, \<open>_ord2ymd\<close>); day 1 is 0001-01-01.
\<close>

definition is_leap :: "int \<Rightarrow> bool" where
  "is_leap y = (y mod 4 = 0 \<and> (if y mod 100 = 0 then y mod 400 = 0 else True))"

definition DAYS_IN_MONTH :: "int list" where
  "DAYS_IN_MONTH = [-1, 31, 28, 31, 30, 31, 30, 31, 31, 30, 31, 30, 31]"

definition DAYS_BEFORE_MONTH :: "int list" where
  "DAYS_BEFORE_MONTH = [-1, 0, 31, 59, 90, 120, 151, 181, 212, 243, 273, 304, 334]"

definition days_before_year :: "int \<Rightarrow> int" where
  "days_before_year year = (let y = year - 1 in y * 365 + y div 4 - y div 100 + y div 400)"

definition days_before_month :: "int \<Rightarrow> int \<Rightarrow> int" where
  "days_before_month year month =
     DAYS_BEFORE_MONTH ! nat month + (if month > 2 \<and> is_leap year then 1 else 0)"

definition ymd2ord :: "int \<Rightarrow> int \<Rightarrow> int \<Rightarrow> int" where
  "ymd2ord year month day = days_before_year year + days_before_month year month + day"

definition ord2ymd :: "int \<Rightarrow> int \<times> int \<times> int" where
  "ord2ymd n0 =
     (let n = n0 - 1;
          n400 = n div 146097; n = n mod 146097;
          n100 = n div 36524; n = n mod 36524;
          n4 = n div 1461; n = n mod 1461;
          n1 = n div 365; n = n mod 365;
          year = n400 * 400 + 1 + (n100 * 100 + n4 * 4 + n1)
      in if n1 = 4 \<or> n100 = 4 then (year - 1, 12, 31)
         else
          (let leapyear = (n1 = 3 \<and> (if n4 = 24 then n100 = 3 else True));
               month = (n + 50) div 32;
               preceding = DAYS_BEFORE_MONTH ! nat month
                             + (if month > 2 \<and> leapyear then 1 else 0)
           in if preceding > n
              then (let month' = month - 1;
                        preceding' = preceding - (DAYS_IN_MONTH ! nat month'
                                       + (if month' = 2 \<and> leapyear then 1 else 0))
                    in (year, month', n - preceding' + 1))
              else (year, month, n - preceding + 1)))"


text \<open>
  \<open>tz.localize(datetime(y, mo, d, h, mi, s))\<close> for a zone whose offset at that reading is
  \<open>offset\<close> microseconds: the way a concrete aware datetime is written down.
\<close>

definition mk_datetime :: "int \<Rightarrow> int \<Rightarrow> int \<Rightarrow> int \<Rightarrow> int \<Rightarrow> int \<Rightarrow> int \<Rightarrow> datetime" where
  "mk_datetime y mo d h mi s offset =
     \<lparr>wall = (ymd2ord y mo d - 1) * US_PER_DAY
              + h * US_PER_HOUR + mi * US_PER_MINUTE + s * US_PER_SECOND,
      off = offset\<rparr>"

section \<open>The schedule planner\<close>

text \<open>
  \<^verbatim>\<open>
  def next_valid(dt, now, margin):
      return dt if dt >= now + margin else now + margin
  \<close>
\<close>

definition next_valid :: "datetime \<Rightarrow> datetime \<Rightarrow> int \<Rightarrow> exn + datetime" where
  "next_valid dt now margin =
     (case dt_add now margin of
        Inl e \<Rightarrow> Inl e
      | Inr earliest \<Rightarrow> if dt_ge dt earliest then Inr dt else dt_add now margin)"

text \<open>
  \<open>str.strip()\<close>: leading and trailing white space goes. The characters Python counts as
  white space among the first 256 code points are 9 to 13, 28 to 32, 133 and 160.
\<close>

definition is_space :: "char \<Rightarrow> bool" where
  "is_space c = ((of_char c :: nat) \<in> {9, 10, 11, 12, 13, 28, 29, 30, 31, 32, 133, 160})"

definition strip :: "string \<Rightarrow> string" where
  "strip s = rev (dropWhile is_space (rev (dropWhile is_space s)))"

text \<open>
  The three loops of \<open>planner\<close>, each over \<open>range(n)\<close> with the list \<open>dates\<close> as
  accumulator. An exception ends the loop and the planner.
  \<^verbatim>\<open>
  for i in range(n):
      dates.append(next_valid(base_today + timedelta(days=i), now, margin))
  \<close>
\<close>

fun daily_loop ::
  "datetime \<Rightarrow> datetime \<Rightarrow> int \<Rightarrow> datetime option list \<Rightarrow> nat list \<Rightarrow> exn + datetime option list"
where
  "daily_loop base_today now margin dates [] = Inr dates"
| "daily_loop base_today now margin dates (i # is) =
     (case dt_add base_today (days (int i)) of
        Inl e \<Rightarrow> Inl e
      | Inr cand \<Rightarrow>
          (case next_valid cand now margin of
             Inl e \<Rightarrow> Inl e
           | Inr d \<Rightarrow> daily_loop base_today now margin (dates @ [Some d]) is))"

text \<open>
  \<^verbatim>\<open>
  for i in range(n):
      dates.append(start + timedelta(days=3*i))
  \<close>
\<close>

fun three_days_loop ::
  "datetime \<Rightarrow> datetime option list \<Rightarrow> nat list \<Rightarrow> exn + datetime option list"
where
  "three_days_loop start dates [] = Inr dates"
| "three_days_loop start dates (i # is) =
     (case dt_add start (days (3 * int i)) of
        Inl e \<Rightarrow> Inl e
      | Inr d \<Rightarrow> three_days_loop start (dates @ [Some d]) is)"

text \<open>
  \<^verbatim>\<open>
  for k in range(n):
      ds = input(...).strip()
      dt = paris.localize(datetime.strptime(ds, "%Y-%m-%d").replace(hour=UPLOAD_HOUR))
      dates.append(next_valid(dt, now, margin))
  \<close>
  \<open>input\<close> reads the next line of the list \<open>lines\<close> and raises \<open>EOFError\<close> when none
  is left. \<open>strptime\<close> is the library's parser, a parameter: it gives the naive reading
  of the date at midnight, or nothing where Python raises \<open>ValueError\<close>.
\<close>

fun manual_loop ::
  "(string \<Rightarrow> int option) \<Rightarrow> (int \<Rightarrow> int) \<Rightarrow> datetime \<Rightarrow> int \<Rightarrow> string list \<Rightarrow>
   datetime option list \<Rightarrow> nat list \<Rightarrow> exn + datetime option list"
where
  "manual_loop strptime paris now margin lines dates [] = Inr dates"
| "manual_loop strptime paris now margin [] dates (k # ks) = Inl EOFError"
| "manual_loop strptime paris now margin (line # lines) dates (k # ks) =
     (case strptime (strip line) of
        None \<Rightarrow> Inl ValueError
      | Some w \<Rightarrow>
          (case next_valid (localize paris (replace_hour w UPLOAD_HOUR)) now margin of
             Inl e \<Rightarrow> Inl e
           | Inr d \<Rightarrow> manual_loop strptime paris now margin lines (dates @ [Some d]) ks))"

text \<open>
  \<open>planner(n)\<close>. What the function reads from outside is made a parameter: the clock
  (\<open>now = datetime.now(paris)\<close>), the lines typed at the prompts (\<open>inputs\<close>: the mode,
  then the dates of the manual mode), the parser and the zone. The modes are
  \<open>1\<close> daily, \<open>2\<close> every three days, \<open>3\<close> immediate (every entry is \<open>None\<close>) and
  \<open>4\<close> manual.
\<close>

definition planner ::
  "(string \<Rightarrow> int option) \<Rightarrow> (int \<Rightarrow> int) \<Rightarrow> datetime \<Rightarrow> string list \<Rightarrow> nat \<Rightarrow>
   exn + datetime option list"
where
  "planner strptime paris now inputs n =
     (let base_today = replace_time now UPLOAD_HOUR 0 0 0;
          margin = minutes MIN_MARGIN_MIN
      in case inputs of
           [] \<Rightarrow> Inl EOFError
         | line # lines \<Rightarrow>
             (let choice = strip line
              in if choice \<notin> {''1'', ''2'', ''3'', ''4''} then Inl (SystemExit ''Choix invalide'')
                 else if choice = ''3'' then Inr (replicate n None)
                 else if choice = ''1'' then daily_loop base_today now margin [] [0..<n]
                 else if choice = ''2'' then
                   (case dt_add base_today (days 1) of
                      Inl e \<Rightarrow> Inl e
                    | Inr cand \<Rightarrow>
                        (case next_valid cand now margin of
                           Inl e \<Rightarrow> Inl e
                         | Inr start \<Rightarrow> three_days_loop start [] [0..<n]))
                 else manual_loop strptime paris now margin lines [] [0..<n]))"

section \<open>The request body\<close>

text \<open>
  \<^verbatim>\<open>
  def iso(dt):
      return dt.astimezone(pytz.UTC).strftime("%Y-%m-%dT%H:%M:%SZ") if dt else None
  \<close>
  \<open>astimezone(pytz.UTC)\<close> subtracts the offset from the local reading, which is datetime
  arithmetic and raises \<open>OverflowError\<close> out of range, and attaches UTC.
\<close>

definition astimezone_utc :: "datetime \<Rightarrow> exn + datetime" where
  "astimezone_utc d =
     (case dt_add d (- off d) of
        Inl e \<Rightarrow> Inl e
      | Inr u \<Rightarrow> Inr (u\<lparr>off := 0\<rparr>))"

text \<open>
  The directives of \<open>strftime\<close>: \<open>%m\<close>, \<open>%d\<close>, \<open>%H\<close>, \<open>%M\<close> and \<open>%S\<close> are
  two digits, zero-padded; \<open>%Y\<close> is the year in decimal as the C library of Linux
  writes it for CPython, without padding: four digits from the year 1000 on, fewer before
  (\<open>datetime(999, 1, 1).strftime("%Y")\<close> is \<open>999\<close>). The format has no directive
  for the microseconds.
\<close>

definition digit :: "int \<Rightarrow> char" where
  "digit n = ''0123456789'' ! nat (n mod 10)"

definition zpad2 :: "int \<Rightarrow> string" where
  "zpad2 n = [digit (n div 10), digit n]"

fun decimal :: "nat \<Rightarrow> string" where
  "decimal n = (if n < 10 then [digit (int n)] else decimal (n div 10) @ [digit (int n)])"

text \<open>The rendering of a reading given in whole seconds since 0001-01-01T00:00:00.\<close>

definition strftime_seconds :: "int \<Rightarrow> string" where
  "strftime_seconds secs =
     (case ord2ymd (secs div 86400 + 1) of
        (y, mo, d) \<Rightarrow>
          decimal (nat y) @ ''-'' @ zpad2 mo @ ''-'' @ zpad2 d @ ''T''
          @ zpad2 (secs mod 86400 div 3600) @ '':''
          @ zpad2 (secs mod 3600 div 60) @ '':''
          @ zpad2 (secs mod 60) @ ''Z'')"

text \<open>\<open>d.strftime("%Y-%m-%dT%H:%M:%SZ")\<close>.\<close>

definition strftime_iso :: "datetime \<Rightarrow> string" where
  "strftime_iso d = strftime_seconds (wall d div US_PER_SECOND)"

definition iso :: "datetime option \<Rightarrow> exn + string option" where
  "iso dt =
     (case dt of
        None \<Rightarrow> Inr None
      | Some d \<Rightarrow>
          (case astimezone_utc d of
             Inl e \<Rightarrow> Inl e
           | Inr u \<Rightarrow> Inr (Some (strftime_iso u))))"

text \<open>
  A file of a folder (a \<open>Path\<close>, with its \<open>stem\<close> and \<open>suffix.lower()\<close>) and the
  metadata read from \<open>metadata.json\<close>, a dictionary whose keys may be absent.
\<close>

record video =
  vpath :: string
  stem :: string
  suffix_lower :: string

record meta =
  meta_title :: "string option"
  meta_description :: "string option"
  meta_tags :: "string list option"

text \<open>The body of the insert request; the key \<open>publishAt\<close> may be absent.\<close>

record snippet_block =
  title :: string
  description :: string
  tags :: "string list"
  categoryId :: string
  defaultLanguage :: string

record status_block =
  privacyStatus :: string
  selfDeclaredMadeForKids :: bool
  publishAt :: "string option"

record body =
  snippet :: snippet_block
  status :: status_block

text \<open>
  \<^verbatim>\<open>
  body = {
      "snippet": {
          "title": meta.get("title", video.stem),
          "description": meta.get("description", ""),
          "tags": trim_tags(meta.get("tags", [])),
          "categoryId": CATEGORY_ID,
          "defaultLanguage": "fr",
      },
      "status": {
          "privacyStatus": "public" if when is None else "private",
          "selfDeclaredMadeForKids": False,
      },
  }
  if when is not None:
      body["status"]["publishAt"] = iso(when)
  \<close>
  The plan entry \<open>when\<close> is \<open>sched\<close> here.
\<close>

definition build_body :: "video \<Rightarrow> meta \<Rightarrow> datetime option \<Rightarrow> exn + body" where
  "build_body vid m sched =
     (let b = \<lparr>snippet =
                 \<lparr>title = (case meta_title m of Some t \<Rightarrow> t | None \<Rightarrow> stem vid),
                  description = (case meta_description m of Some t \<Rightarrow> t | None \<Rightarrow> []),
                  tags = trim_tags (case meta_tags m of Some ts \<Rightarrow> ts | None \<Rightarrow> []),
                  categoryId = CATEGORY_ID,
                  defaultLanguage = ''fr''\<rparr>,
               status =
                 \<lparr>privacyStatus = (if sched = None then ''public'' else ''private''),
                  selfDeclaredMadeForKids = False,
                  publishAt = None\<rparr>\<rparr>
      in if sched \<noteq> None then
           (case iso sched of
              Inl e \<Rightarrow> Inl e
            | Inr s \<Rightarrow> Inr (b\<lparr>status := (status b)\<lparr>publishAt := s\<rparr>\<rparr>))
         else Inr b)"

section \<open>The upload session\<close>

text \<open>
  What the program does to the outside is a trace of events. \<open>Acquire\<close> is the opening
  of the video file by \<open>MediaFileUpload(str(video), resumable=True)\<close>, which keeps the
  handle; \<open>Release\<close> stands for closing one, and no statement of the program does it.
\<close>

datatype event =
    Acquire string
  | Release string
  | Insert body
  | ChunkCall
  | Shown rat
  | LogHttpError exn
  | PrintDone string
  | LogUpload string "datetime option"
  | Move string
  | LogArchived string
  | LogFailure string exn

text \<open>
  One call of \<open>request.next_chunk()\<close> either raises or returns the pair
  \<open>(status, resp)\<close>: \<open>status\<close> is \<open>None\<close> or carries the fraction \<open>status.progress()\<close>,
  \<open>resp\<close> is \<open>None\<close> or the final video resource, of which the program reads
  \<open>resp["id"]\<close>. The fractions are floats in Python; they are rationals here, and
  \<open>PROGRESS_STEP\<close> is exactly 5/100.
\<close>

datatype response = Response (resp_id: string)

datatype chunk = Raises exn | Returns "rat option" "response option"

text \<open>
  \<^verbatim>\<open>
  resp = None
  while resp is None:
      status, resp = request.next_chunk()
      if status and status.progress() - last_shown >= PROGRESS_STEP:
          last_shown = status.progress()
          print("   ", progress_bar(last_shown))
  \<close>
  The server's answers to the successive calls are the list \<open>server\<close>. The loop runs as
  long as no answer is final, so it may not end: the result is \<open>None\<close> when the answers
  run out before a final answer or an exception.
\<close>

fun upload_loop :: "rat \<Rightarrow> chunk list \<Rightarrow> event list \<times> (exn + response) option" where
  "upload_loop last_shown [] = ([], None)"
| "upload_loop last_shown (Raises e # server) = ([ChunkCall], Some (Inl e))"
| "upload_loop last_shown (Returns st resp # server) =
     (let advanced = (case st of
                        None \<Rightarrow> False
                      | Some p \<Rightarrow> p - last_shown \<ge> PROGRESS_STEP);
          last_shown' = (if advanced then the st else last_shown);
          out = (if advanced then [ChunkCall, Shown (the st)] else [ChunkCall])
      in case resp of
           Some r \<Rightarrow> (out, Some (Inr r))
         | None \<Rightarrow>
             (case upload_loop last_shown' server of
                (evs, res) \<Rightarrow> (out @ evs, res)))"

text \<open>
  \<^verbatim>\<open>
  def upload(yt, video, meta, when):
      body = ...
      media = MediaFileUpload(str(video), resumable=True)
      request = yt.videos().insert(part="snippet,status", body=body, media_body=media)
      last_shown = 0.0
      try:
          ... the loop ...
      except HttpError as e:
          logging.error("YouTube API error: %s", e)
          raise
      print("   Upload termine : https://youtu.be/" + resp["id"])
  \<close>
  The result is \<open>None\<close> while the loop runs, \<open>Some (Inl e)\<close> when \<open>upload\<close> raises
  \<open>e\<close> and \<open>Some (Inr ())\<close> when it returns.
\<close>

definition upload ::
  "video \<Rightarrow> meta \<Rightarrow> datetime option \<Rightarrow> chunk list \<Rightarrow> event list \<times> (exn + unit) option"
where
  "upload vid m sched server =
     (case build_body vid m sched of
        Inl e \<Rightarrow> ([], Some (Inl e))
      | Inr b \<Rightarrow>
          (case upload_loop 0 server of
             (evs, None) \<Rightarrow> ([Acquire (vpath vid), Insert b] @ evs, None)
           | (evs, Some (Inl e)) \<Rightarrow>
               ([Acquire (vpath vid), Insert b] @ evs
                  @ (if is_HttpError e then [LogHttpError e] else []),
                Some (Inl e))
           | (evs, Some (Inr r)) \<Rightarrow>
               ([Acquire (vpath vid), Insert b] @ evs @ [PrintDone (resp_id r)],
                Some (Inr ()))))"

text \<open>
  Readings of a trace: the fractions shown to the observer, the number of chunk calls,
  the folders the archiver was called on, and the handles held after the trace by a
  program that held \<open>h\<close> before.
\<close>

fun shown :: "event list \<Rightarrow> rat list" where
  "shown [] = []"
| "shown (Shown p # evs) = p # shown evs"
| "shown (ev # evs) = shown evs"

fun chunk_calls :: "event list \<Rightarrow> nat" where
  "chunk_calls [] = 0"
| "chunk_calls (ChunkCall # evs) = Suc (chunk_calls evs)"
| "chunk_calls (ev # evs) = chunk_calls evs"

fun moves :: "event list \<Rightarrow> string list" where
  "moves [] = []"
| "moves (Move nm # evs) = nm # moves evs"
| "moves (ev # evs) = moves evs"

fun held :: "string list \<Rightarrow> event list \<Rightarrow> string list" where
  "held h [] = h"
| "held h (Acquire p # evs) = held (p # h) evs"
| "held h (Release p # evs) = held (remove1 p h) evs"
| "held h (ev # evs) = held h evs"

section \<open>The orchestrator\<close>

text \<open>
  A folder of the batch as the loop of \<open>main\<close> meets it: its name, and what the file
  system and the server answer while it is processed (\<open>folder.iterdir()\<close>, whether
  \<open>metadata.json\<close> exists and what reading it gives, the answers to the chunk calls, and
  the exception \<open>shutil.move\<close> raises, if any).
\<close>

record folder =
  name :: string
  listing :: "exn + video list"
  has_metadata :: bool
  metadata :: "exn + meta"
  server_answers :: "chunk list"
  move_error :: "exn option"

text \<open>
  \<^verbatim>\<open>
  def find_video_meta(folder):
      vids = [p for p in folder.iterdir() if p.suffix.lower() in VIDEO_EXT]
      if not vids:
          raise FileNotFoundError("video absente")
      meta_fp = folder / "metadata.json"
      if not meta_fp.exists():
          raise FileNotFoundError("metadata.json manquant")
      return vids[0], json.loads(meta_fp.read_text("utf-8"))
  \<close>
\<close>

definition find_video_meta :: "folder \<Rightarrow> exn + video \<times> meta" where
  "find_video_meta f =
     (case listing f of
        Inl e \<Rightarrow> Inl e
      | Inr ps \<Rightarrow>
          (case filter (\<lambda>p. suffix_lower p \<in> VIDEO_EXT) ps of
             [] \<Rightarrow> Inl (FileNotFoundError ''video absente'')
           | v # vs \<Rightarrow>
               if \<not> has_metadata f then Inl (FileNotFoundError ''metadata.json manquant'')
               else (case metadata f of
                       Inl e \<Rightarrow> Inl e
                     | Inr m \<Rightarrow> Inr (v, m))))"

text \<open>
  How one turn of the loop ends: the loop goes on to the next folder, an exception that
  \<open>except Exception\<close> does not catch leaves \<open>main\<close>, or the upload never returns.
\<close>

datatype flow = Next | Propagates exn | Hangs

text \<open>
  \<^verbatim>\<open>
  except Exception as e:
      logging.error("Echec %s : %s", folder.name, e)
  \<close>
\<close>

definition handler :: "string \<Rightarrow> exn \<Rightarrow> event list \<Rightarrow> event list \<times> flow" where
  "handler nm e evs =
     (if is_Exception e then (evs @ [LogFailure nm e], Next) else (evs, Propagates e))"

text \<open>
  \<^verbatim>\<open>
  try:
      video, meta = find_video_meta(folder)
      logging.info("Upload de %s (sched %s)", folder.name, ...)
      upload(yt, video, meta, when)
      shutil.move(str(folder), done_dir / folder.name)
      logging.info("Dossier archive dans %s", done_dir / folder.name)
  except Exception as e: ...
  \<close>
\<close>

definition process_folder :: "folder \<times> datetime option \<Rightarrow> event list \<times> flow" where
  "process_folder fw =
     (case fw of (f, sched) \<Rightarrow>
        (case find_video_meta f of
           Inl e \<Rightarrow> handler (name f) e []
         | Inr (vid, m) \<Rightarrow>
             (case upload vid m sched (server_answers f) of
                (evs, None) \<Rightarrow> (LogUpload (name f) sched # evs, Hangs)
              | (evs, Some (Inl e)) \<Rightarrow> handler (name f) e (LogUpload (name f) sched # evs)
              | (evs, Some (Inr u)) \<Rightarrow>
                  (case move_error f of
                     Some e \<Rightarrow>
                       handler (name f) e (LogUpload (name f) sched # evs @ [Move (name f)])
                   | None \<Rightarrow>
                       (LogUpload (name f) sched # evs
                          @ [Move (name f), LogArchived (name f)], Next)))))"

text \<open>
  \<open>for folder, when in zip(folders, dates): ...\<close>: one trace per folder reached.
\<close>

fun main_loop :: "(folder \<times> datetime option) list \<Rightarrow> event list list \<times> flow" where
  "main_loop [] = ([], Next)"
| "main_loop (fw # rest) =
     (case process_folder fw of
        (evs, fl) \<Rightarrow>
          if fl = Next then (case main_loop rest of (tr, fl') \<Rightarrow> (evs # tr, fl'))
          else ([evs], fl))"

text \<open>
  \<open>main\<close>, from the folders chosen: the plan is computed once for the batch, then the
  folders are processed one after the other. The choice of the folders, the OAuth
  service and the creation of the directory \<open>0.DONE\<close> precede the loop and are not
  modelled.
\<close>

definition main ::
  "(string \<Rightarrow> int option) \<Rightarrow> (int \<Rightarrow> int) \<Rightarrow> datetime \<Rightarrow> string list \<Rightarrow> folder list \<Rightarrow>
   event list list \<times> flow"
where
  "main strptime paris now inputs folders =
     (case planner strptime paris now inputs (length folders) of
        Inl e \<Rightarrow> ([], Propagates e)
      | Inr dates \<Rightarrow> main_loop (zip folders dates))"

section \<open>Vocabulary of the properties\<close>

text \<open>
  The reading moved by a duration without the range check, and the clamp of
  \<open>next_valid\<close>: an instant at least \<open>margin\<close> after \<open>now\<close> is kept, an earlier one
  becomes exactly \<open>now + margin\<close>.
\<close>

definition shift :: "datetime \<Rightarrow> int \<Rightarrow> datetime" where
  "shift d td = d\<lparr>wall := wall d + td\<rparr>"

definition clamp :: "datetime \<Rightarrow> int \<Rightarrow> datetime \<Rightarrow> datetime" where
  "clamp now margin dt = (if instant now + margin \<le> instant dt then dt else shift now margin)"

text \<open>
  What the manual mode computes from one typed line before the clamp:
  \<open>paris.localize(strptime(line.strip(), "%Y-%m-%d").replace(hour=UPLOAD_HOUR))\<close>.
\<close>

definition manual_candidate :: "(string \<Rightarrow> int option) \<Rightarrow> (int \<Rightarrow> int) \<Rightarrow> string \<Rightarrow> datetime option" where
  "manual_candidate strptime paris line =
     map_option (\<lambda>w. localize paris (replace_hour w UPLOAD_HOUR)) (strptime (strip line))"

text \<open>
  The events of the chunk loop; an answer of the server that is not final; and the step
  between two fractions shown one after the other.
\<close>

fun is_session_event :: "event \<Rightarrow> bool" where
  "is_session_event ChunkCall = True"
| "is_session_event (Shown p) = True"
| "is_session_event ev = False"

fun is_partial :: "chunk \<Rightarrow> bool" where
  "is_partial (Returns st None) = True"
| "is_partial c = False"

definition step_apart :: "rat \<Rightarrow> rat \<Rightarrow> bool" where
  "step_apart p q = (PROGRESS_STEP \<le> q - p)"
















section \<open>Sample inputs\<close>

text \<open>
  Concrete inputs at which the theorems are evaluated. Europe/Paris is at UTC+1 outside
  summer time, so on 2024-03-01 the clock \<open>datetime.now(paris)\<close> carries the offset of
  one hour. \<open>sample_strptime\<close> parses the one date the samples type.
\<close>

definition paris_winter :: "int \<Rightarrow> int" where
  "paris_winter w = US_PER_HOUR"

definition sample_strptime :: "string \<Rightarrow> int option" where
  "sample_strptime s =
     (if s = ''2024-03-05'' then Some ((ymd2ord 2024 3 5 - 1) * US_PER_DAY) else None)"

definition scenario_now :: datetime where
  "scenario_now = mk_datetime 2024 3 1 9 30 0 US_PER_HOUR"

definition late_now :: datetime where
  "late_now = mk_datetime 2024 3 1 9 45 0 US_PER_HOUR"

text \<open>
  A folder with one video and its metadata, and two servers: one that ends the upload at
  the fifth chunk call, one that fails at the second.
\<close>

definition sample_video :: video where
  "sample_video = \<lparr>vpath = ''clip/clip.mp4'', stem = ''clip'', suffix_lower = ''.mp4''\<rparr>"

definition sample_meta :: meta where
  "sample_meta = \<lparr>meta_title = Some ''Demo'', meta_description = None,
                  meta_tags = Some [''ai'', ''ml'']\<rparr>"

definition answers_done :: "chunk list" where
  "answers_done =
     [Returns (Some (6 / 100)) None, Returns (Some (8 / 100)) None,
      Returns (Some (11 / 100)) None, Returns (Some (20 / 100)) None,
      Returns None (Some (Response ''abc123''))]"

definition answers_failed :: "chunk list" where
  "answers_failed = [Returns (Some (6 / 100)) None, Raises (HttpError ''503'')]"

definition sample_folder :: "chunk list \<Rightarrow> folder" where
  "sample_folder answers =
     \<lparr>name = ''clip'', listing = Inr [sample_video], has_metadata = True,
      metadata = Inr sample_meta, server_answers = answers, move_error = None\<rparr>"






section \<open>Properties of \<open>trim_tags\<close>\<close>

lemma tag_cost_simps [simp]:
  "tag_cost [] = 0"
  "tag_cost (t # ts) = length t + 1 + tag_cost ts"
  "tag_cost (xs @ ys) = tag_cost xs + tag_cost ys"
  by (simp_all add: tag_cost_def)

lemma trim_loop_acc: "trim_loop tot out ts = out @ trim_loop tot [] ts"
proof (induction ts arbitrary: tot out)
  case Nil
  show ?case by simp
next
  case (Cons t ts)
  have "trim_loop (tot + (length t + 1)) (out @ [t]) ts
        = (out @ [t]) @ trim_loop (tot + (length t + 1)) [] ts"
    by (rule Cons.IH)
  moreover have "trim_loop (tot + (length t + 1)) [t] ts
        = [t] @ trim_loop (tot + (length t + 1)) [] ts"
    using Cons.IH [of "tot + (length t + 1)" "[t]"] by simp
  ultimately show ?case by (simp add: Let_def)
qed

lemma trim_loop_prefix: "prefix (trim_loop tot [] ts) ts"
proof (induction ts arbitrary: tot)
  case Nil
  show ?case by simp
next
  case (Cons t ts)
  show ?case
    using Cons.IH [of "tot + (length t + 1)"]
    by (simp add: Let_def trim_loop_acc [of _ "[t]"])
qed

lemma trim_loop_budget: "tot \<le> 500 \<Longrightarrow> tot + tag_cost (trim_loop tot [] ts) \<le> 500"
proof (induction ts arbitrary: tot)
  case Nil
  then show ?case by simp
next
  case (Cons t ts)
  show ?case
  proof (cases "tot + length t + 1 > 500")
    case True
    with Cons.prems show ?thesis by (simp add: Let_def)
  next
    case False
    then have "tot + (length t + 1) \<le> 500" by simp
    from Cons.IH [OF this] False show ?thesis
      by (simp add: Let_def trim_loop_acc [of _ "[t]"])
  qed
qed

lemma trim_loop_longest:
  "prefix ys ts \<Longrightarrow> tot + tag_cost ys \<le> 500 \<Longrightarrow> prefix ys (trim_loop tot [] ts)"
proof (induction ts arbitrary: tot ys)
  case Nil
  then show ?case by simp
next
  case (Cons t ts)
  show ?case
  proof (cases ys)
    case Nil
    then show ?thesis by simp
  next
    case (Cons y ys')
    with Cons.prems have y: "y = t" and p: "prefix ys' ts"
      and c: "(tot + (length t + 1)) + tag_cost ys' \<le> 500"
      by simp_all
    from c have fits: "\<not> tot + length t + 1 > 500" by simp
    from Cons.IH [OF p c] fits show ?thesis
      by (simp add: Let_def Cons y trim_loop_acc [of _ "[t]"])
  qed
qed

lemma trim_loop_next_overflows:
  "ts = trim_loop tot [] ts @ t # rest \<Longrightarrow>
   tot + tag_cost (trim_loop tot [] ts) + length t + 1 > 500"
proof (induction ts arbitrary: tot)
  case Nil
  then show ?case by simp
next
  case (Cons u us)
  show ?case
  proof (cases "tot + length u + 1 > 500")
    case True
    with Cons.prems show ?thesis by (simp add: Let_def)
  next
    case False
    with Cons.prems
    have "us = trim_loop (tot + (length u + 1)) [] us @ t # rest"
      by (simp add: Let_def trim_loop_acc [of _ "[u]"])
    from Cons.IH [OF this] False show ?thesis
      by (simp add: Let_def trim_loop_acc [of _ "[u]"])
  qed
qed

lemma trim_loop_fits: "tot + tag_cost ts \<le> 500 \<Longrightarrow> trim_loop tot out ts = out @ ts"
proof (induction ts arbitrary: tot out)
  case Nil
  show ?case by simp
next
  case (Cons t ts)
  from Cons.prems have c: "(tot + (length t + 1)) + tag_cost ts \<le> 500" by simp
  then have fits: "\<not> tot + length t + 1 > 500" by simp
  from Cons.IH [OF c, of "out @ [t]"] fits show ?case by (simp add: Let_def)
qed

text \<open>
  Claim C2. For every list of tags, \<open>trim_tags\<close> returns a prefix of the input (same
  order, whole tags only) whose cumulative size, the sum of the tag lengths plus one
  separator per tag, is at most 500; every prefix of the input that fits the budget is a
  prefix of the result, so the result is the longest one; and whenever a tag follows the
  result in the input, adding it would push the total strictly above 500 (a tag that
  brings the total to exactly 500 is therefore kept).
\<close>

theorem trim_tags_longest_prefix:
  "prefix (trim_tags tgs) tgs \<and>
   tag_cost (trim_tags tgs) \<le> 500 \<and>
   (\<forall>ys. prefix ys tgs \<and> tag_cost ys \<le> 500 \<longrightarrow> prefix ys (trim_tags tgs)) \<and>
   (\<forall>t rest. tgs = trim_tags tgs @ t # rest \<longrightarrow>
      tag_cost (trim_tags tgs) + length t + 1 > 500)"
proof (intro conjI allI impI)
  show "prefix (trim_tags tgs) tgs"
    by (simp add: trim_tags_def trim_loop_prefix)
  show "tag_cost (trim_tags tgs) \<le> 500"
    using trim_loop_budget [of 0 tgs] by (simp add: trim_tags_def)
next
  fix ys
  assume "prefix ys tgs \<and> tag_cost ys \<le> 500"
  then show "prefix ys (trim_tags tgs)"
    using trim_loop_longest [of ys tgs 0] by (simp add: trim_tags_def)
next
  fix t rest
  assume "tgs = trim_tags tgs @ t # rest"
  then show "tag_cost (trim_tags tgs) + length t + 1 > 500"
    using trim_loop_next_overflows [of tgs 0 t rest] by (simp add: trim_tags_def)
qed

text \<open>
  A tag of 499 characters fills the budget of 500 exactly and is kept; the tag after it
  is dropped.
\<close>

theorem trim_tags_longest_prefix_witness:
  "trim_tags [replicate 499 (CHR ''a''), ''b''] = [replicate 499 (CHR ''a'')] \<and>
   prefix [replicate 499 (CHR ''a'')] (trim_tags [replicate 499 (CHR ''a''), ''b'']) \<and>
   tag_cost (trim_tags [replicate 499 (CHR ''a''), ''b'']) + length ''b'' + 1 > 500"
proof -
  let ?tgs = "[replicate 499 (CHR ''a''), ''b'']"
  have t: "trim_tags ?tgs = [replicate 499 (CHR ''a'')]"
    by (simp add: trim_tags_def)
  have h1: "prefix [replicate 499 (CHR ''a'')] ?tgs \<and> tag_cost [replicate 499 (CHR ''a'')] \<le> 500"
    by simp
  have h2: "?tgs = trim_tags ?tgs @ ''b'' # []"
    by (simp add: t)
  from trim_tags_longest_prefix [of ?tgs] h1 h2
  have "prefix [replicate 499 (CHR ''a'')] (trim_tags ?tgs)"
    and "tag_cost (trim_tags ?tgs) + length ''b'' + 1 > 500"
    by blast+
  with t show ?thesis by simp
qed

text \<open>
  Claim C10. \<open>trim_tags\<close> is idempotent: trimming an already trimmed list changes
  nothing.
\<close>

theorem trim_tags_idempotent: "trim_tags (trim_tags tgs) = trim_tags tgs"
proof -
  have "0 + tag_cost (trim_tags tgs) \<le> 500"
    using trim_loop_budget [of 0 tgs] by (simp add: trim_tags_def)
  then have "trim_loop 0 [] (trim_tags tgs) = [] @ trim_tags tgs"
    by (rule trim_loop_fits)
  then show ?thesis by (simp add: trim_tags_def)
qed

section \<open>Properties of the planner\<close>

lemma dt_add_Inr: "dt_add d td = Inr r \<Longrightarrow> r = shift d td"
  by (simp add: dt_add_def shift_def Let_def split: if_splits)

lemma instant_shift: "instant (shift d td) = instant d + td"
  by (simp add: instant_def shift_def)

lemma next_valid_Inr:
  assumes "next_valid dt now margin = Inr r"
  shows "r = clamp now margin dt" and "instant now + margin \<le> instant r"
proof -
  from assms obtain e where e: "dt_add now margin = Inr e"
    by (auto simp: next_valid_def split: sum.splits)
  then have es: "e = shift now margin" by (rule dt_add_Inr)
  from assms e es show "r = clamp now margin dt"
    by (auto simp: next_valid_def clamp_def dt_ge_def instant_shift split: if_splits)
  then show "instant now + margin \<le> instant r"
    by (simp add: clamp_def instant_shift)
qed

lemma daily_loop_Inr:
  "daily_loop base now margin dates is = Inr plan \<Longrightarrow>
   plan = dates @ map (\<lambda>i. Some (clamp now margin (shift base (days (int i))))) is"
proof (induction "is" arbitrary: dates)
  case Nil
  then show ?case by simp
next
  case (Cons i "is")
  from Cons.prems obtain cand d where
    c: "dt_add base (days (int i)) = Inr cand" and
    d: "next_valid cand now margin = Inr d" and
    r: "daily_loop base now margin (dates @ [Some d]) is = Inr plan"
    by (auto split: sum.splits)
  from c have "cand = shift base (days (int i))" by (rule dt_add_Inr)
  with next_valid_Inr(1) [OF d] have "d = clamp now margin (shift base (days (int i)))" by simp
  with Cons.IH [OF r] show ?case by simp
qed

lemma three_days_loop_Inr:
  "three_days_loop start dates is = Inr plan \<Longrightarrow>
   plan = dates @ map (\<lambda>i. Some (shift start (days (3 * int i)))) is"
proof (induction "is" arbitrary: dates)
  case Nil
  then show ?case by simp
next
  case (Cons i "is")
  from Cons.prems obtain d where
    c: "dt_add start (days (3 * int i)) = Inr d" and
    r: "three_days_loop start (dates @ [Some d]) is = Inr plan"
    by (auto split: sum.splits)
  from c have "d = shift start (days (3 * int i))" by (rule dt_add_Inr)
  with Cons.IH [OF r] show ?case by simp
qed

lemma manual_loop_Inr:
  "manual_loop strptime paris now margin lines dates ks = Inr plan \<Longrightarrow>
   length ks \<le> length lines \<and>
   (\<exists>cs. map (manual_candidate strptime paris) (take (length ks) lines) = map Some cs \<and>
         plan = dates @ map (\<lambda>c. Some (clamp now margin c)) cs)"
proof (induction strptime paris now margin lines dates ks rule: manual_loop.induct)
  case (1 strptime paris now margin lines dates)
  then show ?case by simp
next
  case (2 strptime paris now margin dates k ks)
  then show ?case by simp
next
  case (3 strptime paris now margin line lines dates k ks)
  from "3.prems" obtain w d where
    w: "strptime (strip line) = Some w" and
    d: "next_valid (localize paris (replace_hour w UPLOAD_HOUR)) now margin = Inr d" and
    r: "manual_loop strptime paris now margin lines (dates @ [Some d]) ks = Inr plan"
    by (auto split: option.splits sum.splits)
  from "3.IH" [OF w d r] obtain cs where
    len: "length ks \<le> length lines" and
    cs: "map (manual_candidate strptime paris) (take (length ks) lines) = map Some cs" and
    p: "plan = (dates @ [Some d]) @ map (\<lambda>c. Some (clamp now margin c)) cs"
    by blast
  let ?c = "localize paris (replace_hour w UPLOAD_HOUR)"
  from w have mc: "manual_candidate strptime paris line = Some ?c"
    by (simp add: manual_candidate_def)
  from next_valid_Inr(1) [OF d] have dc: "d = clamp now margin ?c" .
  have "map (manual_candidate strptime paris) (take (length (k # ks)) (line # lines))
        = map Some (?c # cs)"
    using mc cs by simp
  moreover have "plan = dates @ map (\<lambda>c. Some (clamp now margin c)) (?c # cs)"
    using p dc by simp
  ultimately show ?case using len by (intro conjI exI [of _ "?c # cs"]) simp_all
qed

lemma clamp_bound: "instant now + margin \<le> instant (clamp now margin dt)"
  by (simp add: clamp_def instant_shift)

lemma planner_immediate:
  "strip line = ''3'' \<Longrightarrow> planner strptime paris now (line # lines) n = Inr (replicate n None)"
  by (simp add: planner_def Let_def)

lemma planner_daily:
  assumes "strip line = ''1''" and "planner strptime paris now (line # lines) n = Inr plan"
  shows "plan = map (\<lambda>i. Some (clamp now (minutes MIN_MARGIN_MIN)
                   (shift (replace_time now UPLOAD_HOUR 0 0 0) (days (int i))))) [0..<n]"
proof -
  from assms have "daily_loop (replace_time now UPLOAD_HOUR 0 0 0) now (minutes MIN_MARGIN_MIN)
                     [] [0..<n] = Inr plan"
    by (simp add: planner_def Let_def)
  from daily_loop_Inr [OF this] show ?thesis by simp
qed

lemma planner_every_three_days:
  assumes "strip line = ''2''" and "planner strptime paris now (line # lines) n = Inr plan"
  shows "plan = map (\<lambda>i. Some (shift (clamp now (minutes MIN_MARGIN_MIN)
                   (shift (replace_time now UPLOAD_HOUR 0 0 0) (days 1))) (days (3 * int i)))) [0..<n]"
proof -
  let ?base = "replace_time now UPLOAD_HOUR 0 0 0" and ?margin = "minutes MIN_MARGIN_MIN"
  from assms obtain cand start where
    c: "dt_add ?base (days 1) = Inr cand" and
    s: "next_valid cand now ?margin = Inr start" and
    l: "three_days_loop start [] [0..<n] = Inr plan"
    by (auto simp: planner_def Let_def split: sum.splits)
  from c have "cand = shift ?base (days 1)" by (rule dt_add_Inr)
  with next_valid_Inr(1) [OF s] have "start = clamp now ?margin (shift ?base (days 1))" by simp
  with three_days_loop_Inr [OF l] show ?thesis by simp
qed

lemma planner_manual:
  assumes "strip line = ''4''" and "planner strptime paris now (line # lines) n = Inr plan"
  shows "n \<le> length lines \<and>
         (\<exists>cs. map (manual_candidate strptime paris) (take n lines) = map Some cs \<and>
               plan = map (\<lambda>c. Some (clamp now (minutes MIN_MARGIN_MIN) c)) cs)"
proof -
  from assms have "manual_loop strptime paris now (minutes MIN_MARGIN_MIN) lines [] [0..<n]
                     = Inr plan"
    by (simp add: planner_def Let_def)
  from manual_loop_Inr [OF this] show ?thesis by simp
qed

lemma planner_choice:
  assumes "planner strptime paris now (line # lines) n = Inr plan"
  shows "strip line \<in> {''1'', ''2'', ''3'', ''4''}"
  using assms by (auto simp: planner_def Let_def split: if_splits)

lemma days_nonneg: "0 \<le> days (3 * int i)"
  by (simp add: days_def US_PER_DAY_def)

text \<open>
  Claim C1. Whatever the number of items and the clock, a plan that the planner returns
  has one entry per item, and every concrete instant in it is at least
  \<open>MIN_MARGIN_MIN\<close> (20) minutes after \<open>now\<close>. In the daily mode entry \<open>i\<close> is the
  clamp of today's publish hour plus \<open>i\<close> days; in the mode every three days the clamp
  is applied once, to tomorrow's publish hour, and entry \<open>i\<close> is that start plus
  \<open>3 * i\<close> days; in the manual mode entry \<open>k\<close> is the clamp of the \<open>k\<close>-th typed date
  at the publish hour. The clamp keeps an instant that is late enough and replaces an
  earlier one by exactly \<open>now + 20\<close> minutes: it neither accepts nor rejects it.
\<close>

theorem planner_min_margin:
  assumes ok: "planner strptime paris now (line # lines) n = Inr plan"
  shows "length plan = n \<and>
    (\<forall>t. Some t \<in> set plan \<longrightarrow> instant now + minutes MIN_MARGIN_MIN \<le> instant t) \<and>
    (strip line = ''1'' \<longrightarrow>
       plan = map (\<lambda>i. Some (clamp now (minutes MIN_MARGIN_MIN)
                (shift (replace_time now UPLOAD_HOUR 0 0 0) (days (int i))))) [0..<n]) \<and>
    (strip line = ''2'' \<longrightarrow>
       plan = map (\<lambda>i. Some (shift (clamp now (minutes MIN_MARGIN_MIN)
                (shift (replace_time now UPLOAD_HOUR 0 0 0) (days 1))) (days (3 * int i)))) [0..<n]) \<and>
    (strip line = ''4'' \<longrightarrow>
       n \<le> length lines \<and>
       (\<exists>cs. map (manual_candidate strptime paris) (take n lines) = map Some cs \<and>
             plan = map (\<lambda>c. Some (clamp now (minutes MIN_MARGIN_MIN) c)) cs))"
proof -
  let ?m = "minutes MIN_MARGIN_MIN"
  from planner_choice [OF ok] consider
    (daily) "strip line = ''1''" | (three) "strip line = ''2''" |
    (immediate) "strip line = ''3''" | (manual) "strip line = ''4''"
    by auto
  then have "length plan = n \<and> (\<forall>t. Some t \<in> set plan \<longrightarrow> instant now + ?m \<le> instant t)"
  proof cases
    case daily
    from planner_daily [OF daily ok] show ?thesis by (auto simp: clamp_bound)
  next
    case three
    have "instant now + ?m \<le> instant (shift (clamp now ?m d) (days (3 * int i)))" for d i
      using clamp_bound [of now ?m d] days_nonneg [of i] by (simp add: instant_shift)
    with planner_every_three_days [OF three ok] show ?thesis by auto
  next
    case immediate
    from planner_immediate [OF immediate, of strptime paris now lines n] ok
    have "plan = replicate n None" by simp
    then show ?thesis by simp
  next
    case manual
    from planner_manual [OF manual ok] obtain cs where
      n: "n \<le> length lines" and
      cs: "map (manual_candidate strptime paris) (take n lines) = map Some cs" and
      p: "plan = map (\<lambda>c. Some (clamp now ?m c)) cs"
      by blast
    from cs have "length (take n lines) = length cs" by (rule map_eq_imp_length_eq)
    with n p show ?thesis by (auto simp: clamp_bound)
  qed
  with planner_daily [OF _ ok] planner_every_three_days [OF _ ok] planner_manual [OF _ ok]
  show ?thesis by blast
qed

lemma dt_sub_shift: "dt_sub (shift s x) (shift s y) = x - y"
  by (simp add: dt_sub_def shift_def)

text \<open>
  Claim C8. In the mode every three days with three items, whatever the clock, a
  returned plan has three concrete instants, and each of the last two is exactly three
  days after the one before.
\<close>

theorem every_three_days_gap:
  assumes "planner strptime paris now (line # lines) 3 = Inr plan" and "strip line = ''2''"
  shows "\<exists>a b c. plan = [Some a, Some b, Some c] \<and> dt_sub b a = days 3 \<and> dt_sub c b = days 3"
proof -
  let ?start = "clamp now (minutes MIN_MARGIN_MIN)
                  (shift (replace_time now UPLOAD_HOUR 0 0 0) (days 1))"
  have upt: "[0..<3] = [0, 1, 2]" by (simp add: upt_rec)
  from planner_every_three_days [OF assms(2) assms(1)]
  have "plan = [Some (shift ?start (days 0)), Some (shift ?start (days 3)),
                Some (shift ?start (days 6))]"
    by (simp add: upt)
  moreover have "dt_sub (shift ?start (days 3)) (shift ?start (days 0)) = days 3"
    and "dt_sub (shift ?start (days 6)) (shift ?start (days 3)) = days 3"
    by (simp_all add: dt_sub_shift days_def)
  ultimately show ?thesis by blast
qed

lemma three_days_loop_returns:
  "0 \<le> wall start \<Longrightarrow>
   (\<forall>i\<in>set is. wall start + days (3 * int i) < MAXORDINAL * US_PER_DAY) \<Longrightarrow>
   \<exists>plan. three_days_loop start dates is = Inr plan"
proof (induction "is" arbitrary: dates)
  case Nil
  show ?case by simp
next
  case (Cons i "is")
  from Cons.prems days_nonneg [of i]
  have "dt_add start (days (3 * int i)) = Inr (start\<lparr>wall := wall start + days (3 * int i)\<rparr>)"
    by (simp add: dt_add_def Let_def)
  moreover from Cons.IH [OF Cons.prems(1)] Cons.prems(2)
  have "\<exists>plan. three_days_loop start (dates @ [Some (start\<lparr>wall := wall start + days (3 * int i)\<rparr>)]) is = Inr plan"
    by simp
  ultimately show ?case by simp
qed

lemma replace_time_range:
  assumes "0 \<le> wall now"
  shows "0 \<le> wall (replace_time now UPLOAD_HOUR 0 0 0)"
    and "wall (replace_time now UPLOAD_HOUR 0 0 0) < wall now + US_PER_DAY"
proof -
  have d: "(wall now div US_PER_DAY) * US_PER_DAY \<le> wall now"
    by (simp add: US_PER_DAY_def)
  have "0 \<le> wall now div US_PER_DAY"
    using assms by (simp add: US_PER_DAY_def pos_imp_zdiv_nonneg_iff)
  then have n: "0 \<le> (wall now div US_PER_DAY) * US_PER_DAY"
    by (simp add: US_PER_DAY_def)
  from n show "0 \<le> wall (replace_time now UPLOAD_HOUR 0 0 0)"
    by (simp add: replace_time_def UPLOAD_HOUR_def US_PER_HOUR_def)
  from d show "wall (replace_time now UPLOAD_HOUR 0 0 0) < wall now + US_PER_DAY"
    by (simp add: replace_time_def UPLOAD_HOUR_def US_PER_HOUR_def US_PER_DAY_def)
qed

text \<open>
  The planner does return a plan in that mode for every clock in the range of
  \<open>datetime\<close> that leaves room for the plan before the year 9999 ends.
\<close>

lemma every_three_days_returns:
  assumes "0 \<le> wall now" and "wall now + days (3 * int n) < (MAXORDINAL - 2) * US_PER_DAY"
    and "strip line = ''2''"
  shows "\<exists>plan. planner strptime paris now (line # lines) n = Inr plan"
proof -
  let ?base = "replace_time now UPLOAD_HOUR 0 0 0" and ?m = "minutes MIN_MARGIN_MIN"
  note r = replace_time_range [OF assms(1)]
  have dn: "0 \<le> days (3 * int n)" by (rule days_nonneg)
  have c: "dt_add ?base (days 1) = Inr (shift ?base (days 1))"
    using r assms(2) dn
    by (simp add: dt_add_def Let_def shift_def days_def MAXORDINAL_def US_PER_DAY_def)
  have e: "dt_add now ?m = Inr (shift now ?m)"
    using assms(1,2) dn
    by (simp add: dt_add_def Let_def shift_def minutes_def MIN_MARGIN_MIN_def
        US_PER_MINUTE_def MAXORDINAL_def US_PER_DAY_def)
  let ?start = "clamp now ?m (shift ?base (days 1))"
  have s: "next_valid (shift ?base (days 1)) now ?m = Inr ?start"
    by (simp add: next_valid_def e clamp_def dt_ge_def instant_shift)
  have w0: "0 \<le> wall ?start" and w1: "wall ?start < wall now + 2 * US_PER_DAY"
    using r assms(1)
    by (simp_all add: clamp_def shift_def days_def minutes_def MIN_MARGIN_MIN_def
        US_PER_MINUTE_def US_PER_DAY_def)
  have "\<forall>i\<in>set [0..<n]. wall ?start + days (3 * int i) < MAXORDINAL * US_PER_DAY"
  proof
    fix i assume "i \<in> set [0..<n]"
    then have "days (3 * int i) \<le> days (3 * int n)"
      by (simp add: days_def US_PER_DAY_def)
    with w1 assms(2) show "wall ?start + days (3 * int i) < MAXORDINAL * US_PER_DAY"
      by (simp add: MAXORDINAL_def US_PER_DAY_def)
  qed
  from three_days_loop_returns [OF w0 this, of "[]"] c s assms(3)
  show ?thesis by (simp add: planner_def Let_def)
qed

text \<open>The plan of three items computed on 2024-03-01 at 09:30.\<close>

theorem every_three_days_gap_witness:
  "planner sample_strptime paris_winter scenario_now [''2''] 3
     = Inr [Some (mk_datetime 2024 3 2 10 0 0 US_PER_HOUR),
            Some (mk_datetime 2024 3 5 10 0 0 US_PER_HOUR),
            Some (mk_datetime 2024 3 8 10 0 0 US_PER_HOUR)] \<and>
   strip ''2'' = ''2'' \<and>
   dt_sub (mk_datetime 2024 3 5 10 0 0 US_PER_HOUR) (mk_datetime 2024 3 2 10 0 0 US_PER_HOUR) = days 3 \<and>
   dt_sub (mk_datetime 2024 3 8 10 0 0 US_PER_HOUR) (mk_datetime 2024 3 5 10 0 0 US_PER_HOUR) = days 3"
proof -
  have p: "planner sample_strptime paris_winter scenario_now [''2''] 3
     = Inr [Some (mk_datetime 2024 3 2 10 0 0 US_PER_HOUR),
            Some (mk_datetime 2024 3 5 10 0 0 US_PER_HOUR),
            Some (mk_datetime 2024 3 8 10 0 0 US_PER_HOUR)]"
    by code_simp
  have s: "strip ''2'' = ''2''" by code_simp
  from every_three_days_gap [OF p s] p s show ?thesis by simp
qed

text \<open>
  Claim C3 states that the daily plan of two folders computed on 2024-03-01 at 09:30,
  Paris time, is 2024-03-02T10:00 and 2024-03-03T10:00. The planner does not return that
  plan.
\<close>

theorem daily_scenario_counterexample:
  "planner sample_strptime paris_winter scenario_now [''1''] 2
     \<noteq> Inr [Some (mk_datetime 2024 3 2 10 0 0 US_PER_HOUR),
             Some (mk_datetime 2024 3 3 10 0 0 US_PER_HOUR)]"
  by code_simp

text \<open>
  Claim C3, amended. For a batch of two folders in the daily mode with the clock at
  2024-03-01T09:30, Paris time, and the publish hour 10:00, the planner returns the plan
  2024-03-01T10:00, 2024-03-02T10:00: at 09:30 today's 10:00 is still thirty minutes
  ahead, so the first entry is kept as it is. Both entries are at least 20 minutes after
  the clock.
\<close>

theorem daily_scenario:
  "planner strptime paris scenario_now [''1''] 2
     = Inr [Some (mk_datetime 2024 3 1 10 0 0 US_PER_HOUR),
            Some (mk_datetime 2024 3 2 10 0 0 US_PER_HOUR)] \<and>
   instant scenario_now + minutes MIN_MARGIN_MIN \<le> instant (mk_datetime 2024 3 1 10 0 0 US_PER_HOUR) \<and>
   instant scenario_now + minutes MIN_MARGIN_MIN \<le> instant (mk_datetime 2024 3 2 10 0 0 US_PER_HOUR)"
  by code_simp

section \<open>Properties of the upload session\<close>

lemma upload_loop_quiet:
  assumes "st = None \<or> (\<exists>p. st = Some p \<and> \<not> PROGRESS_STEP \<le> p - l)"
  shows "upload_loop l (Returns st None # server)
           = (ChunkCall # fst (upload_loop l server), snd (upload_loop l server))"
    and "upload_loop l (Returns st (Some r) # server) = ([ChunkCall], Some (Inr r))"
  using assms by (auto simp: Let_def split: prod.splits)

lemma upload_loop_shows:
  assumes "PROGRESS_STEP \<le> p - l"
  shows "upload_loop l (Returns (Some p) None # server)
           = (ChunkCall # Shown p # fst (upload_loop p server), snd (upload_loop p server))"
    and "upload_loop l (Returns (Some p) (Some r) # server)
           = ([ChunkCall, Shown p], Some (Inr r))"
  using assms by (auto simp: Let_def split: prod.splits)

lemma progress_cases:
  obtains (quiet) "st = None \<or> (\<exists>p. st = Some p \<and> \<not> PROGRESS_STEP \<le> p - l)"
  | (advanced) p where "st = Some p" and "PROGRESS_STEP \<le> p - (l::rat)"
  by (cases st) auto

lemmas upload_loop_Nil = upload_loop.simps(1)

lemmas upload_loop_Raises = upload_loop.simps(2)

declare upload_loop.simps [simp del]

lemma upload_loop_events: "list_all is_session_event (fst (upload_loop l server))"
proof (induction server arbitrary: l)
  case Nil
  show ?case by (simp add: upload_loop_Nil)
next
  case (Cons c server)
  show ?case
  proof (cases c)
    case (Raises e)
    then show ?thesis by (simp add: upload_loop_Raises)
  next
    case (Returns st resp)
    show ?thesis
    proof (cases rule: progress_cases [of st l])
      case quiet
      with Returns Cons.IH [of l] show ?thesis
        by (cases resp) (simp_all add: upload_loop_quiet)
    next
      case (advanced p)
      with Returns Cons.IH [of p] show ?thesis
        by (cases resp) (simp_all add: upload_loop_shows)
    qed
  qed
qed

lemma shown_append: "shown (xs @ ys) = shown xs @ shown ys"
  by (induction xs rule: shown.induct) simp_all

lemma chunk_calls_append: "chunk_calls (xs @ ys) = chunk_calls xs + chunk_calls ys"
  by (induction xs rule: chunk_calls.induct) simp_all

lemma moves_append: "moves (xs @ ys) = moves xs @ moves ys"
  by (induction xs rule: moves.induct) simp_all


lemma session_events_moves: "list_all is_session_event evs \<Longrightarrow> moves evs = []"
  by (induction evs rule: moves.induct) simp_all



lemma upload_loop_steps: "successively step_apart (l # shown (fst (upload_loop l server)))"
proof (induction server arbitrary: l)
  case Nil
  show ?case by (simp add: upload_loop_Nil)
next
  case (Cons c server)
  show ?case
  proof (cases c)
    case (Raises e)
    then show ?thesis by (simp add: upload_loop_Raises)
  next
    case (Returns st resp)
    show ?thesis
    proof (cases rule: progress_cases [of st l])
      case quiet
      with Returns Cons.IH [of l] show ?thesis
        by (cases resp) (simp_all add: upload_loop_quiet)
    next
      case (advanced p)
      with Returns Cons.IH [of p] show ?thesis
        by (cases resp) (simp_all add: upload_loop_shows step_apart_def)
    qed
  qed
qed

lemma upload_trace:
  "build_body vid m sched = Inr b \<Longrightarrow>
   \<exists>evs fin. fst (upload vid m sched server) = Acquire (vpath vid) # Insert b # evs @ fin \<and>
            list_all is_session_event evs \<and> evs = fst (upload_loop 0 server) \<and>
            (fin = [] \<or> (\<exists>e. fin = [LogHttpError e]) \<or> (\<exists>i. fin = [PrintDone i]))"
  using upload_loop_events [of 0 server]
  by (auto simp: upload_def split: prod.splits option.splits sum.splits)


text \<open>
  Claim C5. In one upload session, whatever the server answers and however many chunks
  there are, each fraction shown to the observer is at least \<open>PROGRESS_STEP\<close> above the
  one shown before it, and the fractions shown do not decrease.
\<close>

theorem progress_steps:
  "successively step_apart (shown (fst (upload vid m sched server))) \<and>
   sorted (shown (fst (upload vid m sched server)))"
proof -
  let ?ps = "shown (fst (upload vid m sched server))"
  have s: "successively step_apart ?ps"
  proof (cases "build_body vid m sched")
    case (Inl e)
    then show ?thesis by (simp add: upload_def)
  next
    case (Inr b)
    from upload_trace [OF this, of server] obtain fin where
      "fst (upload vid m sched server)
         = Acquire (vpath vid) # Insert b # fst (upload_loop 0 server) @ fin" and
      "fin = [] \<or> (\<exists>e. fin = [LogHttpError e]) \<or> (\<exists>i. fin = [PrintDone i])"
      by blast
    then have "?ps = shown (fst (upload_loop 0 server))"
      by (auto simp: shown_append)
    moreover have "successively step_apart (shown (fst (upload_loop 0 server)))"
      using upload_loop_steps [of 0 server] by (auto simp: successively_Cons)
    ultimately show ?thesis by simp
  qed
  have "successively (\<le>) ?ps"
    using s by (rule successively_mono) (simp add: step_apart_def PROGRESS_STEP_def)
  then have "sorted ?ps"
    by (simp add: successively_conv_sorted_wrt)
  with s show ?thesis by simp
qed

section \<open>Properties of the request body\<close>

subsection \<open>The calendar and the rendering\<close>





lemma table_december:
  "DAYS_BEFORE_MONTH ! nat 12 = 334" "DAYS_IN_MONTH ! nat 12 = 31"
  by (simp_all add: DAYS_BEFORE_MONTH_def DAYS_IN_MONTH_def)


declare decimal.simps [simp del]

















subsection \<open>The status block\<close>






subsection \<open>The session from its first call to its end\<close>

lemma is_partial_cases: "is_partial c \<Longrightarrow> \<exists>st. c = Returns st None"
  by (cases c rule: is_partial.cases) simp_all

lemma upload_loop_failed:
  "list_all is_partial pre \<Longrightarrow>
   snd (upload_loop l (pre @ Raises e # post)) = Some (Inl e) \<and>
   chunk_calls (fst (upload_loop l (pre @ Raises e # post))) = Suc (length pre)"
proof (induction pre arbitrary: l)
  case Nil
  show ?case by (simp add: upload_loop_Raises)
next
  case (Cons c pre)
  then obtain st where c: "c = Returns st None" and rest: "list_all is_partial pre"
    using is_partial_cases [of c] by auto
  show ?case
  proof (cases rule: progress_cases [of st l])
    case quiet
    from Cons.IH [OF rest, of l] show ?thesis
      by (simp add: c upload_loop_quiet(1) [OF quiet])
  next
    case (advanced p)
    from Cons.IH [OF rest, of p] show ?thesis
      by (simp add: c advanced(1) upload_loop_shows(1) [OF advanced(2)])
  qed
qed

text \<open>
  The loop returns as soon as one answer of the server is final or raises, and only
  then: with answers that are all partial it is still running when they run out.
\<close>

lemma upload_loop_returns:
  "\<not> list_all is_partial server \<Longrightarrow> \<exists>r. snd (upload_loop l server) = Some r"
proof (induction server arbitrary: l)
  case Nil
  then show ?case by simp
next
  case (Cons c server)
  show ?case
  proof (cases c)
    case (Raises e)
    then show ?thesis by (simp add: upload_loop_Raises)
  next
    case (Returns st resp)
    show ?thesis
    proof (cases resp)
      case (Some r)
      show ?thesis
        by (cases rule: progress_cases [of st l])
           (simp_all add: Returns Some upload_loop_quiet upload_loop_shows)
    next
      case None
      with Returns Cons.prems have rest: "\<not> list_all is_partial server" by simp
      show ?thesis
      proof (cases rule: progress_cases [of st l])
        case quiet
        from Cons.IH [OF rest, of l] show ?thesis
          by (simp add: Returns None upload_loop_quiet(1) [OF quiet])
      next
        case (advanced p)
        from Cons.IH [OF rest, of p] show ?thesis
          by (simp add: Returns None advanced(1) upload_loop_shows(1) [OF advanced(2)])
      qed
    qed
  qed
qed

lemma upload_loop_running:
  "list_all is_partial server \<Longrightarrow> snd (upload_loop l server) = None"
proof (induction server arbitrary: l)
  case Nil
  show ?case by (simp add: upload_loop_Nil)
next
  case (Cons c server)
  then obtain st where c: "c = Returns st None" and rest: "list_all is_partial server"
    using is_partial_cases [of c] by auto
  show ?case
  proof (cases rule: progress_cases [of st l])
    case quiet
    from Cons.IH [OF rest, of l] show ?thesis
      by (simp add: c upload_loop_quiet(1) [OF quiet])
  next
    case (advanced p)
    from Cons.IH [OF rest, of p] show ?thesis
      by (simp add: c advanced(1) upload_loop_shows(1) [OF advanced(2)])
  qed
qed

lemma session_events_chunk_calls_tail:
  "fin = [] \<or> (\<exists>e. fin = [LogHttpError e]) \<or> (\<exists>i. fin = [PrintDone i]) \<Longrightarrow>
   chunk_calls fin = 0 \<and> moves fin = [] \<and> held h fin = h \<and> shown fin = []"
  by auto

lemma upload_result:
  "build_body vid m sched = Inr b \<Longrightarrow>
   snd (upload vid m sched server) = map_option (map_sum id (\<lambda>r. ())) (snd (upload_loop 0 server))"
  by (auto simp: upload_def split: prod.splits option.splits sum.splits)

lemma upload_build_fails:
  "build_body vid m sched = Inl e \<Longrightarrow> upload vid m sched server = ([], Some (Inl e))"
  by (simp add: upload_def)

lemma upload_chunk_calls:
  assumes "build_body vid m sched = Inr b"
  shows "chunk_calls (fst (upload vid m sched server)) = chunk_calls (fst (upload_loop 0 server))"
proof -
  from upload_trace [OF assms, of server] obtain fin where
    "fst (upload vid m sched server)
       = Acquire (vpath vid) # Insert b # fst (upload_loop 0 server) @ fin" and
    "fin = [] \<or> (\<exists>e. fin = [LogHttpError e]) \<or> (\<exists>i. fin = [PrintDone i])"
    by blast
  then show ?thesis by (auto simp: chunk_calls_append)
qed

lemma upload_moves: "moves (fst (upload vid m sched server)) = []"
proof (cases "build_body vid m sched")
  case (Inl e)
  then show ?thesis by (simp add: upload_def)
next
  case (Inr b)
  from upload_trace [OF this, of server] obtain evs fin where
    "fst (upload vid m sched server) = Acquire (vpath vid) # Insert b # evs @ fin" and
    "list_all is_session_event evs" and
    "fin = [] \<or> (\<exists>e. fin = [LogHttpError e]) \<or> (\<exists>i. fin = [PrintDone i])"
    by blast
  then show ?thesis by (auto simp: moves_append session_events_moves)
qed


section \<open>Properties of the orchestrator\<close>

lemma handler_moves: "moves (fst (handler nm e evs)) = moves evs"
  by (simp add: handler_def moves_append)

lemma handler_chunk_calls: "chunk_calls (fst (handler nm e evs)) = chunk_calls evs"
  by (simp add: handler_def chunk_calls_append)

lemma handler_Exception:
  "is_Exception e \<Longrightarrow> handler nm e evs = (evs @ [LogFailure nm e], Next)"
  by (simp add: handler_def)

lemma handler_flow: "snd (handler nm e evs) = Propagates x \<Longrightarrow> \<not> is_Exception x"
  by (auto simp: handler_def split: if_splits)

lemma process_folder_missing:
  "find_video_meta f = Inl e \<Longrightarrow> process_folder (f, sched) = handler (name f) e []"
  by (simp add: process_folder_def)

lemma process_folder_hangs:
  assumes "find_video_meta f = Inr (vid, m)"
    and "snd (upload vid m sched (server_answers f)) = None"
  shows "process_folder (f, sched)
           = (LogUpload (name f) sched # fst (upload vid m sched (server_answers f)), Hangs)"
  using assms by (cases "upload vid m sched (server_answers f)") (simp add: process_folder_def)

lemma process_folder_failed:
  assumes "find_video_meta f = Inr (vid, m)"
    and "snd (upload vid m sched (server_answers f)) = Some (Inl e)"
  shows "process_folder (f, sched)
           = handler (name f) e
               (LogUpload (name f) sched # fst (upload vid m sched (server_answers f)))"
  using assms by (cases "upload vid m sched (server_answers f)") (simp add: process_folder_def)

lemma process_folder_done:
  assumes "find_video_meta f = Inr (vid, m)"
    and "snd (upload vid m sched (server_answers f)) = Some (Inr u)"
  shows "process_folder (f, sched)
           = (case move_error f of
                Some e \<Rightarrow>
                  handler (name f) e
                    (LogUpload (name f) sched # fst (upload vid m sched (server_answers f))
                       @ [Move (name f)])
              | None \<Rightarrow>
                  (LogUpload (name f) sched # fst (upload vid m sched (server_answers f))
                     @ [Move (name f), LogArchived (name f)], Next))"
  using assms
  by (cases "upload vid m sched (server_answers f)")
     (simp add: process_folder_def split: option.splits)

lemma process_folder_moves:
  "moves (fst (process_folder (f, sched)))
     = (if \<exists>vid m. find_video_meta f = Inr (vid, m) \<and>
                    snd (upload vid m sched (server_answers f)) = Some (Inr ())
        then [name f] else [])"
proof (cases "find_video_meta f")
  case (Inl e)
  then show ?thesis by (simp add: process_folder_missing handler_moves)
next
  case (Inr vm)
  obtain vid m where vm: "vm = (vid, m)" by (cases vm)
  note found = Inr [unfolded vm]
  show ?thesis
  proof (cases "snd (upload vid m sched (server_answers f))")
    case None
    with found show ?thesis
      by (simp add: process_folder_hangs upload_moves)
  next
    case (Some r)
    show ?thesis
    proof (cases r)
      case (Inl e)
      with Some found show ?thesis
        by (simp add: process_folder_failed handler_moves upload_moves)
    next
      case (Inr u)
      with Some found show ?thesis
        by (cases "move_error f")
           (simp_all add: process_folder_done handler_moves moves_append upload_moves)
    qed
  qed
qed

lemma process_folder_flow:
  "snd (process_folder fw) = Propagates x \<Longrightarrow> \<not> is_Exception x"
proof -
  assume p: "snd (process_folder fw) = Propagates x"
  obtain f sched where fw: "fw = (f, sched)" by (cases fw)
  show ?thesis
  proof (cases "find_video_meta f")
    case (Inl e)
    with p fw show ?thesis by (auto simp: process_folder_missing dest: handler_flow)
  next
    case (Inr vm)
    obtain vid m where vm: "vm = (vid, m)" by (cases vm)
    note found = Inr [unfolded vm]
    show ?thesis
    proof (cases "snd (upload vid m sched (server_answers f))")
      case None
      with found p fw show ?thesis by (simp add: process_folder_hangs)
    next
      case (Some r)
      show ?thesis
      proof (cases r)
        case (Inl e)
        with Some found p fw show ?thesis
          by (auto simp: process_folder_failed dest: handler_flow)
      next
        case (Inr u)
        with Some found p fw show ?thesis
          by (cases "move_error f") (auto simp: process_folder_done dest: handler_flow)
      qed
    qed
  qed
qed

lemma main_loop_step:
  "snd (process_folder fw) = Next \<Longrightarrow>
   main_loop (fw # rest) = (fst (process_folder fw) # fst (main_loop rest), snd (main_loop rest))"
  by (cases "process_folder fw"; cases "main_loop rest") simp

lemma main_loop_stops:
  "snd (process_folder fw) \<noteq> Next \<Longrightarrow>
   main_loop (fw # rest) = ([fst (process_folder fw)], snd (process_folder fw))"
  by (cases "process_folder fw"; cases "main_loop rest") simp

lemma main_loop_all:
  "list_all (\<lambda>fw. snd (process_folder fw) = Next) batch \<Longrightarrow>
   main_loop batch = (map (\<lambda>fw. fst (process_folder fw)) batch, Next)"
  by (induction batch) (simp_all add: main_loop_step del: main_loop.simps(2))

lemma planner_length:
  assumes "planner strptime paris now inputs n = Inr plan"
  shows "length plan = n"
proof (cases inputs)
  case Nil
  with assms show ?thesis by (simp add: planner_def Let_def)
next
  case (Cons line lines)
  note ok = assms [unfolded Cons]
  from planner_choice [OF ok] consider
    "strip line = ''1''" | "strip line = ''2''" | "strip line = ''3''" | "strip line = ''4''"
    by auto
  then show ?thesis
  proof cases
    case 1
    from planner_daily [OF 1 ok] show ?thesis by simp
  next
    case 2
    from planner_every_three_days [OF 2 ok] show ?thesis by simp
  next
    case 3
    from planner_immediate [OF 3, of strptime paris now lines n] ok show ?thesis by auto
  next
    case 4
    from planner_manual [OF 4 ok] obtain cs where
      n: "n \<le> length lines" and
      cs: "map (manual_candidate strptime paris) (take n lines) = map Some cs" and
      p: "plan = map (\<lambda>c. Some (clamp now (minutes MIN_MARGIN_MIN) c)) cs"
      by blast
    from cs have "length (take n lines) = length cs" by (rule map_eq_imp_length_eq)
    with n p show ?thesis by simp
  qed
qed

lemma main_covers_batch:
  assumes "planner strptime paris now inputs (length folders) = Inr dates"
  shows "main strptime paris now inputs folders = main_loop (zip folders dates)"
    and "map fst (zip folders dates) = folders"
  using assms planner_length [OF assms] by (simp_all add: main_def)

section \<open>Failure, archiving and resources\<close>

text \<open>
  Claim C6. When a chunk call raises after any number of answers that were not final, the
  loop ends with that error and \<open>upload\<close> raises it; the chunk calls made are those
  answers and the failing call, none after it. The turn of \<open>main\<close> for that folder
  makes no other chunk call and does not archive; when the error is an \<open>Exception\<close> it
  is logged against the folder and the loop goes on with the folders that follow, so the
  folder is not taken up again.
\<close>

theorem failed_chunk_no_retry:
  assumes "list_all is_partial pre"
  shows "snd (upload_loop l (pre @ Raises e # post)) = Some (Inl e) \<and>
    chunk_calls (fst (upload_loop l (pre @ Raises e # post))) = Suc (length pre) \<and>
    (build_body vid m sched = Inr b \<longrightarrow>
       snd (upload vid m sched (pre @ Raises e # post)) = Some (Inl e) \<and>
       chunk_calls (fst (upload vid m sched (pre @ Raises e # post))) = Suc (length pre)) \<and>
    (build_body vid m sched = Inr b \<and> find_video_meta f = Inr (vid, m) \<and>
     server_answers f = pre @ Raises e # post \<longrightarrow>
       chunk_calls (fst (process_folder (f, sched))) = Suc (length pre) \<and>
       moves (fst (process_folder (f, sched))) = [] \<and>
       (is_Exception e \<longrightarrow>
          process_folder (f, sched)
            = (LogUpload (name f) sched # fst (upload vid m sched (server_answers f))
                 @ [LogFailure (name f) e], Next) \<and>
          main_loop ((f, sched) # rest)
            = (fst (process_folder (f, sched)) # fst (main_loop rest), snd (main_loop rest))))"
proof -
  let ?server = "pre @ Raises e # post"
  note loop = upload_loop_failed [OF assms, of _ e post]
  have up: "snd (upload vid m sched ?server) = Some (Inl e) \<and>
            chunk_calls (fst (upload vid m sched ?server)) = Suc (length pre)"
    if b: "build_body vid m sched = Inr b"
    using loop [of 0] by (simp add: upload_result [OF b] upload_chunk_calls [OF b])
  have orch: "chunk_calls (fst (process_folder (f, sched))) = Suc (length pre) \<and>
       moves (fst (process_folder (f, sched))) = [] \<and>
       (is_Exception e \<longrightarrow>
          process_folder (f, sched)
            = (LogUpload (name f) sched # fst (upload vid m sched (server_answers f))
                 @ [LogFailure (name f) e], Next) \<and>
          main_loop ((f, sched) # rest)
            = (fst (process_folder (f, sched)) # fst (main_loop rest), snd (main_loop rest)))"
    if b: "build_body vid m sched = Inr b" and f: "find_video_meta f = Inr (vid, m)"
      and s: "server_answers f = ?server"
  proof -
    from up [OF b] s have r: "snd (upload vid m sched (server_answers f)) = Some (Inl e)"
      and c: "chunk_calls (fst (upload vid m sched (server_answers f))) = Suc (length pre)"
      by simp_all
    note pf = process_folder_failed [OF f r]
    have "chunk_calls (fst (process_folder (f, sched))) = Suc (length pre)"
      by (simp add: pf handler_chunk_calls c)
    moreover have "moves (fst (process_folder (f, sched))) = []"
      by (simp add: pf handler_moves upload_moves)
    moreover have "process_folder (f, sched)
            = (LogUpload (name f) sched # fst (upload vid m sched (server_answers f))
                 @ [LogFailure (name f) e], Next)" if "is_Exception e"
      by (simp add: pf handler_Exception [OF that])
    moreover have "main_loop ((f, sched) # rest)
            = (fst (process_folder (f, sched)) # fst (main_loop rest), snd (main_loop rest))"
      if "is_Exception e"
      by (rule main_loop_step) (simp add: pf handler_Exception [OF that])
    ultimately show ?thesis by blast
  qed
  from loop [of l] up orch show ?thesis by blast
qed

text \<open>
  Claim C7. For every folder of the batch, the archiver \<open>shutil.move\<close> is called once
  when the upload of the folder returns, and not at all otherwise. When the upload raises
  an \<open>Exception\<close>, the error is logged against the folder and the turn ends normally;
  only an exception outside \<open>Exception\<close> leaves the loop. After a turn that ends
  normally the loop processes the remaining folders, in order; and the plan has one entry
  per folder, so that the loop reaches every folder.
\<close>

theorem archive_once_on_done:
  "moves (fst (process_folder (f, sched)))
     = (if \<exists>vid m. find_video_meta f = Inr (vid, m) \<and>
                    snd (upload vid m sched (server_answers f)) = Some (Inr ())
        then [name f] else []) \<and>
   (\<forall>vid m e. find_video_meta f = Inr (vid, m) \<and>
      snd (upload vid m sched (server_answers f)) = Some (Inl e) \<and> is_Exception e \<longrightarrow>
        process_folder (f, sched)
          = (LogUpload (name f) sched # fst (upload vid m sched (server_answers f))
               @ [LogFailure (name f) e], Next)) \<and>
   (\<forall>x. snd (process_folder (f, sched)) = Propagates x \<longrightarrow> \<not> is_Exception x) \<and>
   (snd (process_folder (f, sched)) = Next \<longrightarrow>
      main_loop ((f, sched) # rest)
        = (fst (process_folder (f, sched)) # fst (main_loop rest), snd (main_loop rest))) \<and>
   (list_all (\<lambda>fw. snd (process_folder fw) = Next) batch \<longrightarrow>
      main_loop batch = (map (\<lambda>fw. fst (process_folder fw)) batch, Next)) \<and>
   (planner strptime paris now inputs (length folders) = Inr dates \<longrightarrow>
      main strptime paris now inputs folders = main_loop (zip folders dates) \<and>
      map fst (zip folders dates) = folders)"
proof (intro conjI allI impI)
  show "moves (fst (process_folder (f, sched)))
     = (if \<exists>vid m. find_video_meta f = Inr (vid, m) \<and>
                    snd (upload vid m sched (server_answers f)) = Some (Inr ())
        then [name f] else [])"
    by (rule process_folder_moves)
next
  fix vid m e
  assume "find_video_meta f = Inr (vid, m) \<and>
      snd (upload vid m sched (server_answers f)) = Some (Inl e) \<and> is_Exception e"
  then show "process_folder (f, sched)
          = (LogUpload (name f) sched # fst (upload vid m sched (server_answers f))
               @ [LogFailure (name f) e], Next)"
    by (simp add: process_folder_failed handler_Exception)
next
  fix x
  assume "snd (process_folder (f, sched)) = Propagates x"
  then show "\<not> is_Exception x" by (rule process_folder_flow)
next
  assume "snd (process_folder (f, sched)) = Next"
  then show "main_loop ((f, sched) # rest)
        = (fst (process_folder (f, sched)) # fst (main_loop rest), snd (main_loop rest))"
    by (rule main_loop_step)
next
  assume "list_all (\<lambda>fw. snd (process_folder fw) = Next) batch"
  then show "main_loop batch = (map (\<lambda>fw. fst (process_folder fw)) batch, Next)"
    by (rule main_loop_all)
next
  assume p: "planner strptime paris now inputs (length folders) = Inr dates"
  from main_covers_batch [OF p]
  show "main strptime paris now inputs folders = main_loop (zip folders dates)"
    and "map fst (zip folders dates) = folders"
    by simp_all
qed






text \<open>
  At 09:45 the daily mode clamps today's 10:00 to 10:05; the other two modes at the same
  clock.
\<close>

theorem planner_min_margin_witness:
  "planner sample_strptime paris_winter late_now [''1''] 2
     = Inr [Some (mk_datetime 2024 3 1 10 5 0 US_PER_HOUR),
            Some (mk_datetime 2024 3 2 10 0 0 US_PER_HOUR)] \<and>
   instant late_now + minutes MIN_MARGIN_MIN = instant (mk_datetime 2024 3 1 10 5 0 US_PER_HOUR) \<and>
   instant late_now + minutes MIN_MARGIN_MIN \<le> instant (mk_datetime 2024 3 2 10 0 0 US_PER_HOUR) \<and>
   planner sample_strptime paris_winter late_now [''2''] 2
     = Inr [Some (mk_datetime 2024 3 2 10 0 0 US_PER_HOUR),
            Some (mk_datetime 2024 3 5 10 0 0 US_PER_HOUR)] \<and>
   instant late_now + minutes MIN_MARGIN_MIN \<le> instant (mk_datetime 2024 3 5 10 0 0 US_PER_HOUR) \<and>
   planner sample_strptime paris_winter late_now [''4'', '' 2024-03-05''] 1
     = Inr [Some (mk_datetime 2024 3 5 10 0 0 US_PER_HOUR)] \<and>
   manual_candidate sample_strptime paris_winter '' 2024-03-05''
     = Some (mk_datetime 2024 3 5 10 0 0 US_PER_HOUR)"
proof -
  let ?m = "minutes MIN_MARGIN_MIN"
  let ?a = "mk_datetime 2024 3 1 10 5 0 US_PER_HOUR"
  let ?b = "mk_datetime 2024 3 2 10 0 0 US_PER_HOUR"
  let ?c = "mk_datetime 2024 3 5 10 0 0 US_PER_HOUR"
  have p1: "planner sample_strptime paris_winter late_now [''1''] 2 = Inr [Some ?a, Some ?b]"
    by code_simp
  have p2: "planner sample_strptime paris_winter late_now [''2''] 2 = Inr [Some ?b, Some ?c]"
    by code_simp
  have p4: "planner sample_strptime paris_winter late_now [''4'', '' 2024-03-05''] 1
              = Inr [Some ?c]"
    by code_simp
  have s: "strip ''1'' = ''1''" "strip ''2'' = ''2''" "strip ''4'' = ''4''"
    by code_simp+
  have e: "instant late_now + ?m = instant ?a" by code_simp
  from planner_min_margin [OF p1] have "instant late_now + ?m \<le> instant ?b" by simp
  moreover from planner_min_margin [OF p2] have "instant late_now + ?m \<le> instant ?c" by simp
  moreover from planner_min_margin [OF p4] s(3)
  have "\<exists>cs. map (manual_candidate sample_strptime paris_winter) (take 1 ['' 2024-03-05''])
               = map Some cs \<and>
             [Some ?c] = map (\<lambda>c. Some (clamp late_now ?m c)) cs"
    by blast
  moreover have "manual_candidate sample_strptime paris_winter '' 2024-03-05'' = Some ?c"
    by code_simp
  ultimately show ?thesis using p1 p2 p4 e by simp
qed



text \<open>A server that fails at the second chunk call, in a batch of two folders.\<close>

theorem failed_chunk_no_retry_witness:
  "list_all is_partial [Returns (Some (6 / 100)) None] \<and>
   snd (upload sample_video sample_meta None answers_failed) = Some (Inl (HttpError ''503'')) \<and>
   chunk_calls (fst (upload sample_video sample_meta None answers_failed)) = 2 \<and>
   chunk_calls (fst (process_folder (sample_folder answers_failed, None))) = 2 \<and>
   snd (process_folder (sample_folder answers_failed, None)) = Next \<and>
   fst (main_loop [(sample_folder answers_failed, None), (sample_folder answers_done, None)])
     = [fst (process_folder (sample_folder answers_failed, None)),
        fst (process_folder (sample_folder answers_done, None))]"
proof -
  let ?pre = "[Returns (Some (6 / 100)) None]" and ?e = "HttpError ''503''"
  let ?f = "sample_folder answers_failed" and ?g = "sample_folder answers_done"
  have h: "list_all is_partial ?pre" by simp
  have a: "?pre @ Raises ?e # [] = answers_failed" by (simp add: answers_failed_def)
  obtain b where b: "build_body sample_video sample_meta None = Inr b"
    by (simp add: build_body_def Let_def)
  have f: "find_video_meta ?f = Inr (sample_video, sample_meta)" by code_simp
  have s: "server_answers ?f = answers_failed"
    by (simp add: sample_folder_def)
  have x: "is_Exception ?e" by simp
  have g: "main_loop [(?g, None)] = ([fst (process_folder (?g, None))], Next)" by code_simp
  note t = failed_chunk_no_retry [OF h, of 0 ?e "[]" sample_video sample_meta None b ?f
      "[(?g, None)]", unfolded a]
  from t b have u: "snd (upload sample_video sample_meta None answers_failed) = Some (Inl ?e)"
    and c: "chunk_calls (fst (upload sample_video sample_meta None answers_failed))
              = Suc (length ?pre)"
    by blast+
  from t b f s have pc: "chunk_calls (fst (process_folder (?f, None))) = Suc (length ?pre)"
    by blast
  from t b f s x have pf: "process_folder (?f, None)
            = (LogUpload (name ?f) None # fst (upload sample_video sample_meta None
                 (server_answers ?f)) @ [LogFailure (name ?f) ?e], Next)"
    and ml: "main_loop ((?f, None) # [(?g, None)])
            = (fst (process_folder (?f, None)) # fst (main_loop [(?g, None)]),
               snd (main_loop [(?g, None)]))"
    by blast+
  from pf have nx: "snd (process_folder (?f, None)) = Next" by simp
  from ml g have "fst (main_loop [(?f, None), (?g, None)])
     = [fst (process_folder (?f, None)), fst (process_folder (?g, None))]"
    by simp
  with h u c pc nx show ?thesis by simp
qed

text \<open>A batch of two folders: the upload of the first fails, the second is archived.\<close>

theorem archive_once_on_done_witness:
  "moves (fst (process_folder (sample_folder answers_done, None))) = [''clip''] \<and>
   moves (fst (process_folder (sample_folder answers_failed, None))) = [] \<and>
   process_folder (sample_folder answers_failed, None)
     = (LogUpload ''clip'' None
          # fst (upload sample_video sample_meta None answers_failed)
          @ [LogFailure ''clip'' (HttpError ''503'')], Next) \<and>
   main_loop [(sample_folder answers_failed, None), (sample_folder answers_done, None)]
     = ([fst (process_folder (sample_folder answers_failed, None)),
         fst (process_folder (sample_folder answers_done, None))], Next) \<and>
   main sample_strptime paris_winter late_now [''3'']
        [sample_folder answers_failed, sample_folder answers_done]
     = main_loop [(sample_folder answers_failed, None), (sample_folder answers_done, None)]"
proof -
  let ?f = "sample_folder answers_failed" and ?g = "sample_folder answers_done"
  have ff: "find_video_meta ?f = Inr (sample_video, sample_meta)"
    and fg: "find_video_meta ?g = Inr (sample_video, sample_meta)"
    by code_simp+
  have sf: "server_answers ?f = answers_failed" and sg: "server_answers ?g = answers_done"
    and nm: "name ?f = ''clip''" "name ?g = ''clip''"
    by (simp_all add: sample_folder_def)
  have uf: "snd (upload sample_video sample_meta None answers_failed)
              = Some (Inl (HttpError ''503''))"
    and ug: "snd (upload sample_video sample_meta None answers_done) = Some (Inr ())"
    by code_simp+
  have nx: "list_all (\<lambda>fw. snd (process_folder fw) = Next) [(?f, None), (?g, None)]"
    by code_simp
  have pl: "planner sample_strptime paris_winter late_now [''3''] (length [?f, ?g])
              = Inr [None, None]"
    by code_simp
  note thm_f = archive_once_on_done [of ?f None "[]" "[(?f, None), (?g, None)]"
      sample_strptime paris_winter late_now "[''3'']" "[?f, ?g]" "[None, None]"]
  note thm_g = archive_once_on_done [of ?g None "[]" "[]"
      sample_strptime paris_winter late_now "[]" "[]" "[]"]
  from thm_g fg ug sg nm have "moves (fst (process_folder (?g, None))) = [''clip'']"
    by auto
  moreover from thm_f ff uf sf have "moves (fst (process_folder (?f, None))) = []"
    by auto
  moreover from thm_f ff uf sf nm
  have "process_folder (?f, None)
     = (LogUpload ''clip'' None # fst (upload sample_video sample_meta None answers_failed)
          @ [LogFailure ''clip'' (HttpError ''503'')], Next)"
    by auto
  moreover from thm_f nx
  have "main_loop [(?f, None), (?g, None)]
     = ([fst (process_folder (?f, None)), fst (process_folder (?g, None))], Next)"
    by simp
  moreover from thm_f pl
  have "main sample_strptime paris_winter late_now [''3''] [?f, ?g]
          = main_loop [(?f, None), (?g, None)]"
    by simp
  ultimately show ?thesis by simp
qed


end
